theory Spec2Isabelle
  imports Main "HOL-Library.AList"
begin

section \<open>The plugin loader of \<^verbatim>\<open>plugo/services/plugin_manager.py\<close>\<close>

text \<open>
  The module has one function, \<^verbatim>\<open>load_plugins\<close>, with a nested closure \<^verbatim>\<open>visit\<close>.
  Its body is a sequence of phases, each modelled by one definition below:
  \<^item> lines 86-103: the enabled and disabled name sets (\<open>read_config\<close>, \<open>apply_env\<close>);
  \<^item> lines 109-179: the dictionary \<^verbatim>\<open>plugin_info\<close> (\<open>scan_directory\<close>);
  \<^item> lines 182-226: the depth-first resolution of the loading order (\<open>visit\<close>,
    \<open>visit_deps\<close>, \<open>visit_enabled\<close>);
  \<^item> lines 229-250: the activation loop (\<open>activate\<close>);
  \<^item> lines 253 and 277: the returned set.

  What the file system, the JSON parser and the import machinery deliver is an input of
  the model. Plugin names are strings; a JSON configuration entry is a name with a
  truth value; a decoded \<^verbatim>\<open>metadata.json\<close> is a JSON object. The log lines are not
  modelled, nor is the interpreter's bound on the depth of recursion.
\<close>

subsection \<open>Data\<close>

text \<open>
  A JSON file as the loader sees it: absent, present but rejected by \<^verbatim>\<open>json.load\<close>
  (\<^verbatim>\<open>JSONDecodeError\<close>), or decoded.
\<close>

datatype 'a json_file = NoFile | JSONDecodeError | Decoded 'a

text \<open>
  The value of \<^verbatim>\<open>metadata.get("dependencies", [])\<close>: the key is absent, or it holds a
  list of names, or it holds something that is not a list.
\<close>

datatype dependencies_field = NoKey | ListOf "string list" | NotAList

text \<open>One entry of \<^verbatim>\<open>os.listdir(plugin_directory)\<close>.\<close>

record dir_entry =
  entry_name :: string
  is_dir :: bool
  metadata_json :: "dependencies_field json_file"
  has_plugin_py :: bool

text \<open>
  A value of \<^verbatim>\<open>plugin_info\<close> (lines 173-179). The keys \<^verbatim>\<open>path\<close>, \<^verbatim>\<open>metadata\<close> and
  \<^verbatim>\<open>module\<close> hold values that no branch of the loader tests (the path is the directory
  joined with the name, and is handed to the import machinery); they are left out.
\<close>

record plugin =
  dependencies :: "string list"
  is_loaded :: bool

type_synonym plugin_info = "(string \<times> plugin) list"

text \<open>The three \<^verbatim>\<open>raise Exception(...)\<close> sites of \<^verbatim>\<open>visit\<close>, told apart by their message.\<close>

datatype resolution_error =
  CircularDependency string
  | UnknownPlugin string
  | RequiredButDisabled string

text \<open>
  The three variables the closure \<^verbatim>\<open>visit\<close> mutates (lines 182-184). The two
  dictionaries only ever hold the value \<^verbatim>\<open>True\<close> and are read by \<^verbatim>\<open>in\<close> alone, so each
  is the set of its keys.
\<close>

record dfs_state =
  visited :: "string set"
  temp_marks :: "string set"
  loading_order :: "string list"

subsection \<open>The enabled and disabled sets (lines 82-103)\<close>

text \<open>
  The loop over \<^verbatim>\<open>config_data.get("plugins", [])\<close>: each entry is added to one of the
  two sets; nothing is ever removed from the other one.
\<close>

fun read_config :: "(string \<times> bool) list \<Rightarrow> string set \<times> string set \<Rightarrow> string set \<times> string set" where
  "read_config [] (enabled_plugins, disabled_plugins) = (enabled_plugins, disabled_plugins)"
| "read_config ((name, enabled) # rest) (enabled_plugins, disabled_plugins) =
     (if enabled then read_config rest (insert name enabled_plugins, disabled_plugins)
      else read_config rest (enabled_plugins, insert name disabled_plugins))"

text \<open>
  The environment variable, given as \<^verbatim>\<open>env_plugin_list\<close>, the list of its stripped,
  non-empty, comma-separated parts. An empty variable gives the empty list, for which
  the two updates change nothing, as the guard of line 96 has it.
\<close>

definition apply_env :: "string list \<Rightarrow> string set \<times> string set \<Rightarrow> string set \<times> string set" where
  "apply_env env_plugin_list p =
     (fst p \<union> set env_plugin_list, snd p - set env_plugin_list)"

definition policy :: "(string \<times> bool) list \<Rightarrow> string list \<Rightarrow> string set \<times> string set" where
  "policy config env_plugin_list = apply_env env_plugin_list (read_config config ({}, {}))"

subsection \<open>The dictionary \<^verbatim>\<open>plugin_info\<close> (lines 109-179)\<close>

text \<open>
  One iteration per directory entry. An entry that is not a directory, that lacks
  \<^verbatim>\<open>metadata.json\<close> or \<^verbatim>\<open>plugin.py\<close>, whose metadata does not decode, or whose
  dependencies are not a list, is passed over by \<^verbatim>\<open>continue\<close>. The processing of
  \<^verbatim>\<open>requirements.txt\<close> (lines 119-148) writes to no variable of the loader.
\<close>

fun scan_directory :: "dir_entry list \<Rightarrow> plugin_info \<Rightarrow> plugin_info" where
  "scan_directory [] info = info"
| "scan_directory (e # es) info =
     (if \<not> is_dir e then scan_directory es info
      else if metadata_json e = NoFile \<or> \<not> has_plugin_py e then scan_directory es info
      else case metadata_json e of
          NoFile \<Rightarrow> scan_directory es info
        | JSONDecodeError \<Rightarrow> scan_directory es info
        | Decoded NotAList \<Rightarrow> scan_directory es info
        | Decoded NoKey \<Rightarrow>
            scan_directory es (AList.update (entry_name e)
              \<lparr>dependencies = [], is_loaded = False\<rparr> info)
        | Decoded (ListOf deps) \<Rightarrow>
            scan_directory es (AList.update (entry_name e)
              \<lparr>dependencies = deps, is_loaded = False\<rparr> info))"

definition all_plugins_in_directory :: "dir_entry list \<Rightarrow> string set" where
  "all_plugins_in_directory listing = entry_name ` {e \<in> set listing. is_dir e}"

subsection \<open>Resolution of the loading order (lines 182-226)\<close>

text \<open>
  The closure \<^verbatim>\<open>visit\<close> and its loop over the dependencies. An exception leaves
  both at once, so it is the \<open>Inl\<close> result; the state is the \<open>Inr\<close> result.
\<close>

function visit :: "plugin_info \<Rightarrow> string set \<Rightarrow> string \<Rightarrow> dfs_state \<Rightarrow> resolution_error + dfs_state"
  and visit_deps :: "plugin_info \<Rightarrow> string set \<Rightarrow> string list \<Rightarrow> dfs_state \<Rightarrow> resolution_error + dfs_state"
where
  "visit info disabled_plugins plugin_name st =
     (if plugin_name \<in> temp_marks st then Inl (CircularDependency plugin_name)
      else if plugin_name \<notin> visited st then
        (case map_of info plugin_name of
           None \<Rightarrow> Inl (UnknownPlugin plugin_name)
         | Some p \<Rightarrow>
             if plugin_name \<in> disabled_plugins then Inl (RequiredButDisabled plugin_name)
             else
               (case visit_deps info disabled_plugins (dependencies p)
                       (st\<lparr>temp_marks := insert plugin_name (temp_marks st)\<rparr>) of
                  Inl e \<Rightarrow> Inl e
                | Inr st' \<Rightarrow>
                    Inr (st'\<lparr>visited := insert plugin_name (visited st'),
                             temp_marks := temp_marks st' - {plugin_name},
                             loading_order := loading_order st' @ [plugin_name]\<rparr>)))
      else Inr st)"
| "visit_deps info disabled_plugins [] st = Inr st"
| "visit_deps info disabled_plugins (dep # deps) st =
     (case visit info disabled_plugins dep st of
        Inl e \<Rightarrow> Inl e
      | Inr st' \<Rightarrow> visit_deps info disabled_plugins deps st')"
  by pat_completeness auto

text \<open>
  The loop of lines 216-223 over \<^verbatim>\<open>list(enabled_plugins)\<close>: an enabled name without an
  entry in \<^verbatim>\<open>plugin_info\<close> is logged and passed over by \<^verbatim>\<open>continue\<close>.
\<close>

fun visit_enabled :: "plugin_info \<Rightarrow> string set \<Rightarrow> string list \<Rightarrow> dfs_state \<Rightarrow> resolution_error + dfs_state" where
  "visit_enabled info disabled_plugins [] st = Inr st"
| "visit_enabled info disabled_plugins (plugin_name # rest) st =
     (if map_of info plugin_name = None then visit_enabled info disabled_plugins rest st
      else if plugin_name \<notin> visited st then
        (case visit info disabled_plugins plugin_name st of
           Inl e \<Rightarrow> Inl e
         | Inr st' \<Rightarrow> visit_enabled info disabled_plugins rest st')
      else visit_enabled info disabled_plugins rest st)"

text \<open>
  Lines 182-226 as a whole, from the empty marks: the exception caught at line 224, or
  the finished \<^verbatim>\<open>loading_order\<close>. Python does not fix the order in which a set is
  iterated, so the list made of \<^verbatim>\<open>enabled_plugins\<close> at line 216 is an argument.
\<close>

definition resolve :: "plugin_info \<Rightarrow> string set \<Rightarrow> string list \<Rightarrow> resolution_error + string list" where
  "resolve info disabled_plugins enabled_list =
     (case visit_enabled info disabled_plugins enabled_list
             \<lparr>visited = {}, temp_marks = {}, loading_order = []\<rparr> of
        Inl e \<Rightarrow> Inl e
      | Inr st \<Rightarrow> Inr (loading_order st))"

subsection \<open>Activation (lines 229-250)\<close>

text \<open>
  What one pass through the \<^verbatim>\<open>try\<close> block does with a plugin. Four outcomes stay in
  the loop: the import raises an exception that the clause \<^verbatim>\<open>except Exception\<close> of line
  249 catches, the module has no \<^verbatim>\<open>init_plugin\<close>, \<^verbatim>\<open>init_plugin\<close> raises such an
  exception, or it returns. The fifth does not: the module or \<^verbatim>\<open>init_plugin\<close> raises an
  exception outside the class \<^verbatim>\<open>Exception\<close> (\<^verbatim>\<open>SystemExit\<close> from \<^verbatim>\<open>sys.exit()\<close>,
  \<^verbatim>\<open>KeyboardInterrupt\<close>, \<^verbatim>\<open>GeneratorExit\<close>), which line 249 does not catch.
\<close>

datatype activation =
  ImportRaised | NoInitPlugin | InitRaised | Initialised | BaseExceptionRaised

text \<open>
  Importing and initialising a plugin runs foreign code: it is a parameter, a function
  of the plugin's name and of everything that code can see (\<open>'w\<close>, which holds the
  keyword arguments too), giving the outcome and what that code left behind.
\<close>

type_synonym 'w activator = "'w \<Rightarrow> string \<Rightarrow> activation \<times> 'w"

text \<open>
  The state of the loop: the dictionary, whose \<^verbatim>\<open>is_loaded\<close> entries it sets, the
  plugins handed to the import machinery so far with their outcomes, in order (each
  gives rise to exactly one log line, 244, 246 or 250), and the world.
\<close>

record 'w run =
  plugins :: plugin_info
  attempts :: "(string \<times> activation) list"
  world :: 'w

text \<open>
  The result is \<open>None\<close> when an exception leaves the loop, and the loader with it: the
  subscription \<^verbatim>\<open>plugin_info[plugin_name]\<close> of line 230 stands outside the \<^verbatim>\<open>try\<close> block,
  so a missing key raises \<^verbatim>\<open>KeyError\<close>; and an exception outside the class \<^verbatim>\<open>Exception\<close>
  passes the clause of line 249. No later plugin is handed to the import machinery
  then.
\<close>

fun activate :: "'w activator \<Rightarrow> string list \<Rightarrow> 'w run \<Rightarrow> 'w run option" where
  "activate act [] r = Some r"
| "activate act (plugin_name # rest) r =
     (case map_of (plugins r) plugin_name of
        None \<Rightarrow> None
      | Some p \<Rightarrow>
          (case act (world r) plugin_name of
             (BaseExceptionRaised, w') \<Rightarrow> None
           | (Initialised, w') \<Rightarrow>
               activate act rest
                 \<lparr>plugins = AList.update plugin_name (p\<lparr>is_loaded := True\<rparr>) (plugins r),
                  attempts = attempts r @ [(plugin_name, Initialised)],
                  world = w'\<rparr>
           | (a, w') \<Rightarrow>
               activate act rest
                 \<lparr>plugins = plugins r,
                  attempts = attempts r @ [(plugin_name, a)],
                  world = w'\<rparr>))"

subsection \<open>The function \<^verbatim>\<open>load_plugins\<close>\<close>

text \<open>
  Lines 181-277, once the two sets and the dictionary are built. The result is \<open>None\<close>
  when the loader raises, and otherwise the returned value (Python's \<^verbatim>\<open>None\<close> or the
  set of line 253) with the final state of the run.
\<close>

definition resolve_and_activate ::
    "'w activator \<Rightarrow> plugin_info \<Rightarrow> string set \<Rightarrow> string list \<Rightarrow> 'w \<Rightarrow> (string set option \<times> 'w run) option" where
  "resolve_and_activate act info disabled_plugins enabled_list w =
     (case resolve info disabled_plugins enabled_list of
        Inl e \<Rightarrow> Some (None, \<lparr>plugins = info, attempts = [], world = w\<rparr>)
      | Inr order \<Rightarrow>
          (case activate act order \<lparr>plugins = info, attempts = [], world = w\<rparr> of
             None \<Rightarrow> None
           | Some r \<Rightarrow> Some (Some (set order), r)))"

text \<open>
  The whole function. \<open>plugin_directory\<close> is \<open>None\<close> when the path does not exist or is
  no directory (line 60) and the listing otherwise; \<open>config_file\<close> holds the entries
  under the key \<^verbatim>\<open>plugins\<close>; \<open>list_of\<close> is the order in which line 216 iterates a set.
\<close>

definition load_plugins ::
    "(string set \<Rightarrow> string list) \<Rightarrow> 'w activator \<Rightarrow> dir_entry list option \<Rightarrow>
     (string \<times> bool) list json_file \<Rightarrow> string list \<Rightarrow> 'w \<Rightarrow> (string set option \<times> 'w run) option" where
  "load_plugins list_of act plugin_directory config_file env_plugin_list w =
     (case plugin_directory of
        None \<Rightarrow> Some (None, \<lparr>plugins = [], attempts = [], world = w\<rparr>)
      | Some listing \<Rightarrow>
          (case config_file of
             NoFile \<Rightarrow> Some (None, \<lparr>plugins = [], attempts = [], world = w\<rparr>)
           | JSONDecodeError \<Rightarrow> Some (None, \<lparr>plugins = [], attempts = [], world = w\<rparr>)
           | Decoded config \<Rightarrow>
               resolve_and_activate act (scan_directory listing [])
                 (snd (policy config env_plugin_list))
                 (list_of (fst (policy config env_plugin_list))) w))"

subsection \<open>The dependency graph\<close>

text \<open>
  The notions the properties are stated with: the declared dependencies of a name (none
  when the dictionary has no entry for it), the edges from a plugin to its
  dependencies, and the order property of a list: every dependency of the plugin at
  position \<open>i\<close> stands at a position below \<open>i\<close>.
\<close>

definition deps_of :: "plugin_info \<Rightarrow> string \<Rightarrow> string list" where
  "deps_of info n = (case map_of info n of None \<Rightarrow> [] | Some p \<Rightarrow> dependencies p)"

definition dep_edges :: "plugin_info \<Rightarrow> (string \<times> string) set" where
  "dep_edges info = {(n, d). d \<in> set (deps_of info n)}"

definition deps_before :: "plugin_info \<Rightarrow> string list \<Rightarrow> bool" where
  "deps_before info order \<longleftrightarrow>
     (\<forall>i < length order. \<forall>d \<in> set (deps_of info (order ! i)). \<exists>j < i. order ! j = d)"

text \<open>What holds of the marks between two calls of \<^verbatim>\<open>visit\<close>.\<close>

definition dfs_inv :: "plugin_info \<Rightarrow> string set \<Rightarrow> dfs_state \<Rightarrow> bool" where
  "dfs_inv info disabled_plugins st \<longleftrightarrow>
     visited st = set (loading_order st) \<and>
     distinct (loading_order st) \<and>
     visited st \<inter> temp_marks st = {} \<and>
     (\<forall>v \<in> visited st. map_of info v \<noteq> None \<and> v \<notin> disabled_plugins \<and>
        set (deps_of info v) \<subseteq> visited st) \<and>
     deps_before info (loading_order st)"

text \<open>
  When an error is justified, for a traversal started at the names \<open>S\<close> with the
  temporary marks \<open>T\<close>.
\<close>

fun justified :: "plugin_info \<Rightarrow> string set \<Rightarrow> string set \<Rightarrow> string set \<Rightarrow> resolution_error \<Rightarrow> bool" where
  "justified info disabled_plugins T S (CircularDependency x) \<longleftrightarrow>
     x \<in> (dep_edges info)\<^sup>* `` S \<and> (x \<in> T \<or> (x, x) \<in> (dep_edges info)\<^sup>+)"
| "justified info disabled_plugins T S (UnknownPlugin x) \<longleftrightarrow>
     x \<in> (dep_edges info)\<^sup>* `` S \<and> map_of info x = None"
| "justified info disabled_plugins T S (RequiredButDisabled x) \<longleftrightarrow>
     x \<in> (dep_edges info)\<^sup>* `` S \<and> map_of info x \<noteq> None \<and> x \<in> disabled_plugins"

subsection \<open>Auxiliary notions\<close>


text \<open>A directory entry that line 173 enters into the dictionary.\<close>

definition well_formed :: "dir_entry \<Rightarrow> bool" where
  "well_formed e \<longleftrightarrow>
     is_dir e \<and> has_plugin_py e \<and>
     (case metadata_json e of Decoded NoKey \<Rightarrow> True | Decoded (ListOf deps) \<Rightarrow> True | _ \<Rightarrow> False)"

subsection \<open>Scenarios\<close>

text \<open>
  Small dictionaries and one directory on which the definitions are run: a chain with
  a plugin whose dependency is missing, a cycle of two, a plugin that lists an unknown
  name and itself, a plugin with its dependency, and a plugin whose dependency is not
  in the directory.
\<close>

definition scenario_chain :: plugin_info where
  "scenario_chain =
     [(''A'', \<lparr>dependencies = [], is_loaded = False\<rparr>),
      (''B'', \<lparr>dependencies = [''A''], is_loaded = False\<rparr>),
      (''C'', \<lparr>dependencies = [''X''], is_loaded = False\<rparr>)]"

definition scenario_cycle :: plugin_info where
  "scenario_cycle =
     [(''A'', \<lparr>dependencies = [''B''], is_loaded = False\<rparr>),
      (''B'', \<lparr>dependencies = [''A''], is_loaded = False\<rparr>)]"

definition scenario_self :: plugin_info where
  "scenario_self = [(''A'', \<lparr>dependencies = [''X'', ''A''], is_loaded = False\<rparr>)]"

definition scenario_pair :: plugin_info where
  "scenario_pair =
     [(''A'', \<lparr>dependencies = [], is_loaded = False\<rparr>),
      (''B'', \<lparr>dependencies = [''A''], is_loaded = False\<rparr>)]"

definition scenario_orphan :: plugin_info where
  "scenario_orphan = [(''B'', \<lparr>dependencies = [''A''], is_loaded = False\<rparr>)]"

definition scenario_directory :: "dir_entry list" where
  "scenario_directory =
     [\<lparr>entry_name = ''A'', is_dir = True, metadata_json = Decoded NoKey, has_plugin_py = True\<rparr>,
      \<lparr>entry_name = ''B'', is_dir = True, metadata_json = Decoded (ListOf [''A'']),
        has_plugin_py = True\<rparr>,
      \<lparr>entry_name = ''M'', is_dir = True, metadata_json = Decoded NotAList, has_plugin_py = True\<rparr>,
      \<lparr>entry_name = ''N'', is_dir = True, metadata_json = JSONDecodeError, has_plugin_py = True\<rparr>,
      \<lparr>entry_name = ''README'', is_dir = False, metadata_json = NoFile, has_plugin_py = False\<rparr>]"

text \<open>
  Import machineries: under the first every plugin is imported and initialised; under
  the second and the third, which count in the world how often they are called, the
  module of plugin \<open>A\<close> fails to import, or \<^verbatim>\<open>init_plugin\<close> of \<open>A\<close> calls \<^verbatim>\<open>sys.exit()\<close>;
  the last is the second without the count.
\<close>

definition every_import_succeeds :: "unit activator" where
  "every_import_succeeds w plugin_name = (Initialised, w)"



definition import_of_A_fails :: "unit activator" where
  "import_of_A_fails w plugin_name = (if plugin_name = ''A'' then ImportRaised else Initialised, w)"

section \<open>Termination of the traversal\<close>

text \<open>
  A call of \<^verbatim>\<open>visit\<close> that returns leaves \<^verbatim>\<open>temp_marks\<close> as it found it; with that, each
  nested call has fewer unmarked keys of the dictionary left, or a shorter list.
\<close>

lemma visit_temp_marks_dom:
  "visit_visit_deps_dom (Inl (info, dis, n, st)) \<Longrightarrow> visit info dis n st = Inr st'
     \<Longrightarrow> temp_marks st' = temp_marks st"
  "visit_visit_deps_dom (Inr (info, dis, ds, st)) \<Longrightarrow> visit_deps info dis ds st = Inr st'
     \<Longrightarrow> temp_marks st' = temp_marks st"
proof (induction info dis n st and info dis ds st arbitrary: st' and st'
    rule: visit_visit_deps.pinduct)
  case (1 info dis n st)
  show ?case
  proof (cases "n \<in> temp_marks st")
    case True
    with 1 show ?thesis by (simp add: visit.psimps)
  next
    case nt: False
    show ?thesis
    proof (cases "n \<in> visited st")
      case True
      with 1 nt show ?thesis by (simp add: visit.psimps)
    next
      case nv: False
      from 1(1,3) nt nv obtain p st2 where
        p: "map_of info n = Some p" and nd: "n \<notin> dis" and
        r: "visit_deps info dis (dependencies p) (st\<lparr>temp_marks := insert n (temp_marks st)\<rparr>) = Inr st2" and
        s: "st' = st2\<lparr>visited := insert n (visited st2), temp_marks := temp_marks st2 - {n},
                 loading_order := loading_order st2 @ [n]\<rparr>"
        by (auto simp: visit.psimps split: option.splits if_splits sum.splits)
      from 1(2)[OF nt nv p nd r] have "temp_marks st2 = insert n (temp_marks st)" by simp
      with s nt show ?thesis by auto
    qed
  qed
next
  case (2 info dis st)
  then show ?case by (simp add: visit_deps.psimps)
next
  case (3 info dis d ds st)
  from 3(1,4) obtain st1 where
    a: "visit info dis d st = Inr st1" and b: "visit_deps info dis ds st1 = Inr st'"
    by (auto simp: visit_deps.psimps split: sum.splits)
  from 3(2)[OF a] 3(3)[OF a b] show ?case by simp
qed

termination visit
proof (relation "inv_image (measure (\<lambda>(info, T). card (fst ` set info - T)) <*lex*> measure id)
    (\<lambda>x. case x of Inl (info, dis, n, st) \<Rightarrow> ((info, temp_marks st), 0::nat)
                 | Inr (info, dis, ds, st) \<Rightarrow> ((info, temp_marks st), Suc (length ds)))", goal_cases)
  case 1
  show ?case by (intro wf_inv_image wf_lex_prod wf_measure)
next
  case (2 info dis n st p)
  have "n \<in> fst ` set info" using 2(3) by (metis map_of_SomeD fst_conv image_eqI)
  then have "card (fst ` set info - insert n (temp_marks st)) < card (fst ` set info - temp_marks st)"
    using 2(1) by (intro psubset_card_mono) auto
  then show ?case by simp
next
  case (3 info dis d ds st)
  then show ?case by simp
next
  case (4 info dis d ds st st')
  then show ?case by (simp add: visit_temp_marks_dom(1))
qed

declare visit.simps [simp del]

section \<open>The traversal\<close>

subsection \<open>The five ways through \<^verbatim>\<open>visit\<close>\<close>


lemma visit_circular: "n \<in> temp_marks st \<Longrightarrow> visit info dis n st = Inl (CircularDependency n)"
  by (subst visit.simps) simp

lemma visit_seen: "n \<notin> temp_marks st \<Longrightarrow> n \<in> visited st \<Longrightarrow> visit info dis n st = Inr st"
  by (subst visit.simps) simp

lemma visit_unknown:
  "n \<notin> temp_marks st \<Longrightarrow> n \<notin> visited st \<Longrightarrow> map_of info n = None
     \<Longrightarrow> visit info dis n st = Inl (UnknownPlugin n)"
  by (subst visit.simps) simp

lemma visit_disabled:
  "n \<notin> temp_marks st \<Longrightarrow> n \<notin> visited st \<Longrightarrow> map_of info n = Some p \<Longrightarrow> n \<in> dis
     \<Longrightarrow> visit info dis n st = Inl (RequiredButDisabled n)"
  by (subst visit.simps) simp

lemma visit_new:
  "n \<notin> temp_marks st \<Longrightarrow> n \<notin> visited st \<Longrightarrow> map_of info n = Some p \<Longrightarrow> n \<notin> dis
     \<Longrightarrow> visit info dis n st =
     (case visit_deps info dis (dependencies p) (st\<lparr>temp_marks := insert n (temp_marks st)\<rparr>) of
        Inl e \<Rightarrow> Inl e
      | Inr st' \<Rightarrow> Inr (st'\<lparr>visited := insert n (visited st'), temp_marks := temp_marks st' - {n},
                             loading_order := loading_order st' @ [n]\<rparr>))"
  by (subst visit.simps) simp

lemma visit_cases:
  obtains (circular) "n \<in> temp_marks st"
  | (seen) "n \<notin> temp_marks st" "n \<in> visited st"
  | (unknown) "n \<notin> temp_marks st" "n \<notin> visited st" "map_of info n = None"
  | (disabled) p where "n \<notin> temp_marks st" "n \<notin> visited st" "map_of info n = Some p" "n \<in> dis"
  | (new) p where "n \<notin> temp_marks st" "n \<notin> visited st" "map_of info n = Some p" "n \<notin> dis"
  by (cases "map_of info n") blast+

lemma visit_temp_marks:
  "visit info dis n st = Inr st' \<Longrightarrow> temp_marks st' = temp_marks st"
  "visit_deps info dis ds st = Inr st' \<Longrightarrow> temp_marks st' = temp_marks st"
proof (induction info dis n st and info dis ds st arbitrary: st' and st'
    rule: visit_visit_deps.induct)
  case (1 info dis n st)
  show ?case
  proof (cases rule: visit_cases[where n=n and st=st and info=info and dis=dis])
    case circular
    with 1(2) show ?thesis by (simp add: visit_circular)
  next
    case seen
    with 1(2) show ?thesis by (simp add: visit_seen)
  next
    case unknown
    with 1(2) show ?thesis by (simp add: visit_unknown)
  next
    case (disabled p)
    with 1(2) show ?thesis by (simp add: visit_disabled)
  next
    case (new p)
    from 1(2) obtain st2 where
      r: "visit_deps info dis (dependencies p) (st\<lparr>temp_marks := insert n (temp_marks st)\<rparr>) = Inr st2"
      and s: "st' = st2\<lparr>visited := insert n (visited st2), temp_marks := temp_marks st2 - {n},
                 loading_order := loading_order st2 @ [n]\<rparr>"
      by (auto simp: visit_new[OF new] split: sum.splits)
    from 1(1)[OF new r] have "temp_marks st2 = insert n (temp_marks st)" by simp
    with s new(1) show ?thesis by auto
  qed
next
  case (2 info dis st)
  then show ?case by simp
next
  case (3 info dis d ds st)
  from 3(3) obtain st1 where
    a: "visit info dis d st = Inr st1" and b: "visit_deps info dis ds st1 = Inr st'"
    by (auto split: sum.splits)
  from 3(1)[OF a] 3(2)[OF a b] show ?case by simp
qed

lemma dep_edgesI: "map_of info n = Some p \<Longrightarrow> d \<in> set (dependencies p) \<Longrightarrow> (n, d) \<in> dep_edges info"
  by (simp add: dep_edges_def deps_of_def)

lemma deps_of_Some: "map_of info n = Some p \<Longrightarrow> deps_of info n = dependencies p"
  by (simp add: deps_of_def)

lemma reach_step:
  assumes "map_of info n = Some p"
  shows "(dep_edges info)\<^sup>* `` set (dependencies p) \<subseteq> (dep_edges info)\<^sup>* `` {n}"
proof
  fix x assume "x \<in> (dep_edges info)\<^sup>* `` set (dependencies p)"
  then obtain d where d: "d \<in> set (dependencies p)" and r: "(d, x) \<in> (dep_edges info)\<^sup>*" by blast
  from dep_edgesI[OF assms d] r have "(n, x) \<in> (dep_edges info)\<^sup>*"
    by (rule converse_rtrancl_into_rtrancl)
  then show "x \<in> (dep_edges info)\<^sup>* `` {n}" by blast
qed

lemma deps_before_snoc:
  assumes "deps_before info xs" "set (deps_of info x) \<subseteq> set xs"
  shows "deps_before info (xs @ [x])"
  unfolding deps_before_def
proof (intro allI impI ballI)
  fix i d assume i: "i < length (xs @ [x])" and d: "d \<in> set (deps_of info ((xs @ [x]) ! i))"
  show "\<exists>j<i. (xs @ [x]) ! j = d"
  proof (cases "i < length xs")
    case True
    with d have "d \<in> set (deps_of info (xs ! i))" by (simp add: nth_append)
    with assms(1) True obtain j where "j < i" "xs ! j = d" unfolding deps_before_def by blast
    with True show ?thesis by (auto simp: nth_append intro!: exI[of _ j])
  next
    case False
    with i have ii: "i = length xs" by simp
    with d assms(2) have "d \<in> set xs" by auto
    then obtain j where "j < length xs" "xs ! j = d" by (auto simp: in_set_conv_nth)
    with ii show ?thesis by (auto simp: nth_append intro!: exI[of _ j])
  qed
qed

lemma dfs_inv_mark:
  assumes "dfs_inv info dis st" "n \<notin> visited st"
  shows "dfs_inv info dis (st\<lparr>temp_marks := insert n (temp_marks st)\<rparr>)"
  using assms unfolding dfs_inv_def by auto

lemma dfs_inv_finish:
  assumes inv: "dfs_inv info dis st2" and n: "n \<in> temp_marks st2"
    and p: "map_of info n = Some p" and nd: "n \<notin> dis"
    and deps: "set (dependencies p) \<subseteq> visited st2"
  shows "dfs_inv info dis (st2\<lparr>visited := insert n (visited st2), temp_marks := temp_marks st2 - {n},
            loading_order := loading_order st2 @ [n]\<rparr>)"
proof -
  from inv have v: "visited st2 = set (loading_order st2)" and d: "distinct (loading_order st2)"
    and disj: "visited st2 \<inter> temp_marks st2 = {}"
    and cl: "\<forall>v \<in> visited st2. map_of info v \<noteq> None \<and> v \<notin> dis \<and> set (deps_of info v) \<subseteq> visited st2"
    and db: "deps_before info (loading_order st2)"
    unfolding dfs_inv_def by blast+
  from n disj have nv: "n \<notin> visited st2" by blast
  have db': "deps_before info (loading_order st2 @ [n])"
    using db deps v by (intro deps_before_snoc) (simp_all add: deps_of_Some[OF p])
  have cl': "\<forall>v \<in> insert n (visited st2). map_of info v \<noteq> None \<and> v \<notin> dis \<and>
      set (deps_of info v) \<subseteq> insert n (visited st2)"
    using cl p nd deps by (auto simp: deps_of_Some[OF p])
  show ?thesis unfolding dfs_inv_def using v d disj nv db' cl' by auto
qed

lemma visit_inv:
  "dfs_inv info dis st \<Longrightarrow> visit info dis n st = Inr st' \<Longrightarrow>
     dfs_inv info dis st' \<and> visited st \<subseteq> visited st' \<and> n \<in> visited st' \<and>
     visited st' \<subseteq> visited st \<union> (dep_edges info)\<^sup>* `` {n}"
  "dfs_inv info dis st \<Longrightarrow> visit_deps info dis ds st = Inr st' \<Longrightarrow>
     dfs_inv info dis st' \<and> visited st \<subseteq> visited st' \<and> set ds \<subseteq> visited st' \<and>
     visited st' \<subseteq> visited st \<union> (dep_edges info)\<^sup>* `` set ds"
proof (induction info dis n st and info dis ds st arbitrary: st' and st'
    rule: visit_visit_deps.induct)
  case (1 info dis n st)
  show ?case
  proof (cases rule: visit_cases[where n=n and st=st and info=info and dis=dis])
    case circular
    with 1(3) show ?thesis by (simp add: visit_circular)
  next
    case seen
    with 1(2,3) show ?thesis by (auto simp: visit_seen)
  next
    case unknown
    with 1(3) show ?thesis by (simp add: visit_unknown)
  next
    case (disabled p)
    with 1(3) show ?thesis by (simp add: visit_disabled)
  next
    case (new p)
    let ?st1 = "st\<lparr>temp_marks := insert n (temp_marks st)\<rparr>"
    from 1(3) obtain st2 where
      r: "visit_deps info dis (dependencies p) ?st1 = Inr st2"
      and s: "st' = st2\<lparr>visited := insert n (visited st2), temp_marks := temp_marks st2 - {n},
                 loading_order := loading_order st2 @ [n]\<rparr>"
      by (auto simp: visit_new[OF new] split: sum.splits)
    have inv1: "dfs_inv info dis ?st1" using 1(2) new(2) by (rule dfs_inv_mark)
    from 1(1)[OF new inv1 r]
    have inv2: "dfs_inv info dis st2" and mono: "visited st \<subseteq> visited st2"
      and deps: "set (dependencies p) \<subseteq> visited st2"
      and up: "visited st2 \<subseteq> visited st \<union> (dep_edges info)\<^sup>* `` set (dependencies p)"
      by simp_all
    from visit_temp_marks(2)[OF r] have tm: "n \<in> temp_marks st2" by simp
    have inv': "dfs_inv info dis st'" unfolding s
      using inv2 tm new(3,4) deps by (rule dfs_inv_finish)
    have up': "visited st' \<subseteq> visited st \<union> (dep_edges info)\<^sup>* `` {n}"
      using up reach_step[OF new(3)] by (auto simp: s)
    from inv' mono up' show ?thesis by (auto simp: s)
  qed
next
  case (2 info dis st)
  then show ?case by simp
next
  case (3 info dis d ds st)
  from 3(4) obtain st1 where
    a: "visit info dis d st = Inr st1" and b: "visit_deps info dis ds st1 = Inr st'"
    by (auto split: sum.splits)
  from 3(1)[OF 3(3) a]
  have i1: "dfs_inv info dis st1" and m1: "visited st \<subseteq> visited st1" and d1: "d \<in> visited st1"
    and u1: "visited st1 \<subseteq> visited st \<union> (dep_edges info)\<^sup>* `` {d}" by simp_all
  from 3(2)[OF a i1 b]
  have i2: "dfs_inv info dis st'" and m2: "visited st1 \<subseteq> visited st'" and d2: "set ds \<subseteq> visited st'"
    and u2: "visited st' \<subseteq> visited st1 \<union> (dep_edges info)\<^sup>* `` set ds" by simp_all
  have "visited st' \<subseteq> visited st \<union> (dep_edges info)\<^sup>* `` set (d # ds)"
    using u1 u2 by auto
  with i2 m1 m2 d1 d2 show ?case by auto
qed

lemma justified_mono:
  assumes "justified info dis T S e" "(dep_edges info)\<^sup>* `` S \<subseteq> (dep_edges info)\<^sup>* `` S'"
  shows "justified info dis T S' e"
  using assms by (cases e) auto

lemma visit_justified:
  "visit info dis n st = Inl e \<Longrightarrow> justified info dis (temp_marks st) {n} e"
  "visit_deps info dis ds st = Inl e \<Longrightarrow> justified info dis (temp_marks st) (set ds) e"
proof (induction info dis n st and info dis ds st arbitrary: e and e
    rule: visit_visit_deps.induct)
  case (1 info dis n st)
  show ?case
  proof (cases rule: visit_cases[where n=n and st=st and info=info and dis=dis])
    case circular
    with 1(2) show ?thesis by (auto simp: visit_circular)
  next
    case seen
    with 1(2) show ?thesis by (simp add: visit_seen)
  next
    case unknown
    with 1(2) show ?thesis by (auto simp: visit_unknown)
  next
    case (disabled p)
    with 1(2) show ?thesis by (auto simp: visit_disabled)
  next
    case (new p)
    let ?st1 = "st\<lparr>temp_marks := insert n (temp_marks st)\<rparr>"
    from 1(2) have r: "visit_deps info dis (dependencies p) ?st1 = Inl e"
      by (auto simp: visit_new[OF new] split: sum.splits)
    from 1(1)[OF new r]
    have j: "justified info dis (insert n (temp_marks st)) (set (dependencies p)) e" by simp
    note sub = reach_step[OF new(3)]
    show ?thesis
    proof (cases e)
      case (CircularDependency x)
      with j have x: "x \<in> (dep_edges info)\<^sup>* `` set (dependencies p)"
        and c: "x = n \<or> x \<in> temp_marks st \<or> (x, x) \<in> (dep_edges info)\<^sup>+" by auto
      from x obtain d where d: "d \<in> set (dependencies p)" and dx: "(d, x) \<in> (dep_edges info)\<^sup>*"
        by blast
      from dep_edgesI[OF new(3) d] dx have nx: "(n, x) \<in> (dep_edges info)\<^sup>+"
        by (rule rtrancl_into_trancl2)
      from c nx have "x \<in> temp_marks st \<or> (x, x) \<in> (dep_edges info)\<^sup>+" by auto
      with x sub CircularDependency show ?thesis by auto
    next
      case (UnknownPlugin x)
      with j sub show ?thesis by auto
    next
      case (RequiredButDisabled x)
      with j sub show ?thesis by auto
    qed
  qed
next
  case (2 info dis st)
  then show ?case by simp
next
  case (3 info dis d ds st)
  show ?case
  proof (cases "visit info dis d st")
    case (Inl e')
    with 3(3) have "e' = e" by simp
    with 3(1)[of e] Inl have "justified info dis (temp_marks st) {d} e" by simp
    then show ?thesis by (rule justified_mono) auto
  next
    case (Inr st1)
    with 3(3) have b: "visit_deps info dis ds st1 = Inl e" by simp
    from 3(2)[OF Inr b] visit_temp_marks(1)[OF Inr]
    have "justified info dis (temp_marks st) (set ds) e" by simp
    then show ?thesis by (rule justified_mono) auto
  qed
qed

lemma dfs_inv_closed:
  assumes "dfs_inv info dis st" "(x, y) \<in> (dep_edges info)\<^sup>*" "x \<in> visited st"
  shows "y \<in> visited st"
  using assms(2,3)
proof (induction rule: rtrancl_induct)
  case base
  then show ?case .
next
  case (step y z)
  from step have "y \<in> visited st" by simp
  with assms(1) have "set (deps_of info y) \<subseteq> visited st" unfolding dfs_inv_def by blast
  with step(2) show ?case by (auto simp: dep_edges_def)
qed

lemma deps_before_trancl:
  assumes "deps_before info order" "(x, y) \<in> (dep_edges info)\<^sup>+" "i < length order" "order ! i = x"
  shows "\<exists>j<i. order ! j = y"
  using assms(2,3,4)
proof (induction arbitrary: i rule: trancl_induct)
  case (base y)
  then have "y \<in> set (deps_of info (order ! i))" by (simp add: dep_edges_def)
  with assms(1) base(2) show ?case unfolding deps_before_def by blast
next
  case (step y z)
  from step.IH[OF step.prems] obtain j where j: "j < i" "order ! j = y" by blast
  with step.hyps(2) have "z \<in> set (deps_of info (order ! j))" by (simp add: dep_edges_def)
  moreover from j step.prems have "j < length order" by simp
  ultimately obtain k where "k < j" "order ! k = z" using assms(1) unfolding deps_before_def by blast
  with j show ?case by (auto intro!: exI[of _ k])
qed

lemma dfs_inv_acyclic:
  assumes "dfs_inv info dis st" "x \<in> visited st"
  shows "(x, x) \<notin> (dep_edges info)\<^sup>+"
proof
  assume c: "(x, x) \<in> (dep_edges info)\<^sup>+"
  from assms have v: "x \<in> set (loading_order st)" and d: "distinct (loading_order st)"
    and db: "deps_before info (loading_order st)" unfolding dfs_inv_def by blast+
  from v obtain i where i: "i < length (loading_order st)" "loading_order st ! i = x"
    by (auto simp: in_set_conv_nth)
  from deps_before_trancl[OF db c i] obtain j where j: "j < i" "loading_order st ! j = x" by blast
  with i d show False by (auto simp: distinct_conv_nth)
qed

lemma visit_enabled_inv:
  "dfs_inv info dis st \<Longrightarrow> temp_marks st = {} \<Longrightarrow> visit_enabled info dis ns st = Inr st' \<Longrightarrow>
     dfs_inv info dis st' \<and> temp_marks st' = {} \<and> visited st \<subseteq> visited st' \<and>
     set ns \<inter> dom (map_of info) \<subseteq> visited st' \<and>
     visited st' \<subseteq> visited st \<union> (dep_edges info)\<^sup>* `` (set ns \<inter> dom (map_of info))"
proof (induction ns arbitrary: st)
  case Nil
  then show ?case by simp
next
  case (Cons n ns)
  have sub: "(dep_edges info)\<^sup>* `` (set ns \<inter> dom (map_of info))
      \<subseteq> (dep_edges info)\<^sup>* `` (set (n # ns) \<inter> dom (map_of info))" by auto
  show ?case
  proof (cases "map_of info n = None \<or> n \<in> visited st")
    case True
    with Cons.prems(3) have r: "visit_enabled info dis ns st = Inr st'" by (auto split: if_splits)
    from Cons.IH[OF Cons.prems(1,2) r]
    have i2: "dfs_inv info dis st'" and t2: "temp_marks st' = {}" and m2: "visited st \<subseteq> visited st'"
      and s2: "set ns \<inter> dom (map_of info) \<subseteq> visited st'"
      and u2: "visited st' \<subseteq> visited st \<union> (dep_edges info)\<^sup>* `` (set ns \<inter> dom (map_of info))"
      by simp_all
    from True m2 s2 have s3: "set (n # ns) \<inter> dom (map_of info) \<subseteq> visited st'" by auto
    from u2 sub have "visited st' \<subseteq> visited st \<union> (dep_edges info)\<^sup>* `` (set (n # ns) \<inter> dom (map_of info))"
      by blast
    with i2 t2 m2 s3 show ?thesis by blast
  next
    case False
    with Cons.prems(3) obtain st1 where a: "visit info dis n st = Inr st1"
      and b: "visit_enabled info dis ns st1 = Inr st'" by (auto split: if_splits sum.splits)
    from visit_inv(1)[OF Cons.prems(1) a]
    have i1: "dfs_inv info dis st1" and m1: "visited st \<subseteq> visited st1" and n1: "n \<in> visited st1"
      and u1: "visited st1 \<subseteq> visited st \<union> (dep_edges info)\<^sup>* `` {n}" by simp_all
    from visit_temp_marks(1)[OF a] Cons.prems(2) have t1: "temp_marks st1 = {}" by simp
    from Cons.IH[OF i1 t1 b]
    have i2: "dfs_inv info dis st'" and t2: "temp_marks st' = {}" and m2: "visited st1 \<subseteq> visited st'"
      and s2: "set ns \<inter> dom (map_of info) \<subseteq> visited st'"
      and u2: "visited st' \<subseteq> visited st1 \<union> (dep_edges info)\<^sup>* `` (set ns \<inter> dom (map_of info))"
      by simp_all
    from False have nd: "n \<in> dom (map_of info)" by auto
    then have subn: "(dep_edges info)\<^sup>* `` {n}
      \<subseteq> (dep_edges info)\<^sup>* `` (set (n # ns) \<inter> dom (map_of info))" by auto
    have u3: "visited st' \<subseteq> visited st \<union> (dep_edges info)\<^sup>* `` (set (n # ns) \<inter> dom (map_of info))"
      using u1 u2 sub subn by blast
    from m2 n1 s2 have s3: "set (n # ns) \<inter> dom (map_of info) \<subseteq> visited st'" by auto
    from m1 m2 have "visited st \<subseteq> visited st'" by blast
    with i2 t2 s3 u3 show ?thesis by blast
  qed
qed

lemma visit_enabled_justified:
  "temp_marks st = {} \<Longrightarrow> visit_enabled info dis ns st = Inl e \<Longrightarrow>
     justified info dis {} (set ns \<inter> dom (map_of info)) e"
proof (induction ns arbitrary: st)
  case Nil
  then show ?case by simp
next
  case (Cons n ns)
  have sub: "(dep_edges info)\<^sup>* `` (set ns \<inter> dom (map_of info))
      \<subseteq> (dep_edges info)\<^sup>* `` (set (n # ns) \<inter> dom (map_of info))" by auto
  show ?case
  proof (cases "map_of info n = None \<or> n \<in> visited st")
    case True
    with Cons.prems(2) have r: "visit_enabled info dis ns st = Inl e" by (auto split: if_splits)
    from Cons.IH[OF Cons.prems(1) r] show ?thesis using sub by (rule justified_mono)
  next
    case False
    then have nd: "n \<in> dom (map_of info)" by auto
    show ?thesis
    proof (cases "visit info dis n st")
      case (Inl e')
      with False Cons.prems(2) have "e' = e" by (auto split: if_splits)
      with visit_justified(1)[OF Inl] Cons.prems(1) have j: "justified info dis {} {n} e" by simp
      from nd have "(dep_edges info)\<^sup>* `` {n}
        \<subseteq> (dep_edges info)\<^sup>* `` (set (n # ns) \<inter> dom (map_of info))" by auto
      with j show ?thesis by (rule justified_mono)
    next
      case (Inr st1)
      with False Cons.prems(2) have b: "visit_enabled info dis ns st1 = Inl e"
        by (auto split: if_splits)
      from visit_temp_marks(1)[OF Inr] Cons.prems(1) have "temp_marks st1 = {}" by simp
      from Cons.IH[OF this b] show ?thesis using sub by (rule justified_mono)
    qed
  qed
qed

lemma dfs_inv_init: "dfs_inv info dis \<lparr>visited = {}, temp_marks = {}, loading_order = []\<rparr>"
  by (simp add: dfs_inv_def deps_before_def)

lemma resolve_Inr:
  assumes "resolve info dis ns = Inr order"
  shows "\<exists>st. dfs_inv info dis st \<and> loading_order st = order \<and>
     visited st = (dep_edges info)\<^sup>* `` (set ns \<inter> dom (map_of info))"
proof -
  let ?st0 = "\<lparr>visited = {}, temp_marks = {}, loading_order = []\<rparr>"
  from assms obtain st where r: "visit_enabled info dis ns ?st0 = Inr st" and o: "loading_order st = order"
    by (auto simp: resolve_def split: sum.splits)
  from visit_enabled_inv[OF dfs_inv_init _ r]
  have inv: "dfs_inv info dis st" and s: "set ns \<inter> dom (map_of info) \<subseteq> visited st"
    and u: "visited st \<subseteq> (dep_edges info)\<^sup>* `` (set ns \<inter> dom (map_of info))" by simp_all
  have "(dep_edges info)\<^sup>* `` (set ns \<inter> dom (map_of info)) \<subseteq> visited st"
    using dfs_inv_closed[OF inv] s by blast
  with inv o u show ?thesis by blast
qed

lemma resolve_Inl:
  assumes "resolve info dis ns = Inl e"
  shows "justified info dis {} (set ns \<inter> dom (map_of info)) e"
proof -
  from assms have "visit_enabled info dis ns \<lparr>visited = {}, temp_marks = {}, loading_order = []\<rparr> = Inl e"
    by (auto simp: resolve_def split: sum.splits)
  from visit_enabled_justified[OF _ this] show ?thesis by simp
qed

subsection \<open>The outcome of resolution\<close>

lemma reach_in_catalog:
  assumes "x \<in> (dep_edges info)\<^sup>* `` S" "map_of info x \<noteq> None"
  shows "x \<in> (dep_edges info)\<^sup>* `` (S \<inter> dom (map_of info))"
proof -
  from assms(1) obtain s where s: "s \<in> S" and r: "(s, x) \<in> (dep_edges info)\<^sup>*" by blast
  from r assms(2) have "map_of info s \<noteq> None"
  proof (induction rule: converse_rtrancl_induct)
    case base
    then show ?case .
  next
    case (step y z)
    from step(1) show ?case by (cases "map_of info y") (auto simp: dep_edges_def deps_of_def)
  qed
  with s r show ?thesis by blast
qed

lemma loading_order_sub:
  assumes "resolve info disabled_plugins enabled_list = Inr order"
  shows "set order \<subseteq> dom (map_of info)"
proof -
  from resolve_Inr[OF assms] obtain st where "dfs_inv info disabled_plugins st"
    and "loading_order st = order" by blast
  then show ?thesis unfolding dfs_inv_def by auto
qed

lemma resolve_fails:
  assumes s: "s \<in> set enabled_list" "map_of info s \<noteq> None" and r: "(s, x) \<in> (dep_edges info)\<^sup>*"
    and bad: "map_of info x = None \<or> x \<in> disabled_plugins \<or> (x, x) \<in> (dep_edges info)\<^sup>+"
  shows "\<exists>e. resolve info disabled_plugins enabled_list = Inl e \<and>
           justified info disabled_plugins {} (set enabled_list \<inter> dom (map_of info)) e"
proof (cases "resolve info disabled_plugins enabled_list")
  case (Inl e)
  with resolve_Inl[OF Inl] show ?thesis by simp
next
  case (Inr order)
  from resolve_Inr[OF Inr] obtain st where inv: "dfs_inv info disabled_plugins st"
    and v: "visited st = (dep_edges info)\<^sup>* `` (set enabled_list \<inter> dom (map_of info))" by blast
  from s r v have x: "x \<in> visited st" by blast
  with inv have "map_of info x \<noteq> None" "x \<notin> disabled_plugins" unfolding dfs_inv_def by blast+
  moreover from dfs_inv_acyclic[OF inv x] have "(x, x) \<notin> (dep_edges info)\<^sup>+" .
  ultimately have False using bad by simp
  then show ?thesis ..
qed

lemma resolve_and_activate_Inl:
  "resolve info disabled_plugins enabled_list = Inl e \<Longrightarrow>
     resolve_and_activate act info disabled_plugins enabled_list w =
       Some (None, \<lparr>plugins = info, attempts = [], world = w\<rparr>)"
  by (simp add: resolve_and_activate_def)

lemma justified_kind:
  assumes "justified info dis {} S e"
  shows "(\<exists>y \<in> (dep_edges info)\<^sup>* `` S. e = CircularDependency y \<and> (y, y) \<in> (dep_edges info)\<^sup>+) \<or>
         (\<exists>y \<in> (dep_edges info)\<^sup>* `` S. e = UnknownPlugin y \<and> map_of info y = None) \<or>
         (\<exists>y \<in> (dep_edges info)\<^sup>* `` S. e = RequiredButDisabled y \<and> map_of info y \<noteq> None \<and> y \<in> dis)"
proof (cases e)
  case (CircularDependency y)
  with assms have "y \<in> (dep_edges info)\<^sup>* `` S" "(y, y) \<in> (dep_edges info)\<^sup>+" by simp_all
  with CircularDependency show ?thesis by blast
next
  case (UnknownPlugin y)
  with assms have "y \<in> (dep_edges info)\<^sup>* `` S" "map_of info y = None" by simp_all
  with UnknownPlugin show ?thesis by blast
next
  case (RequiredButDisabled y)
  with assms have "y \<in> (dep_edges info)\<^sup>* `` S" "map_of info y \<noteq> None" "y \<in> dis" by simp_all
  with RequiredButDisabled show ?thesis by blast
qed

lemma visit_enabled_filter:
  "visit_enabled info dis (filter (\<lambda>n. map_of info n \<noteq> None) ns) st = visit_enabled info dis ns st"
proof (induction ns arbitrary: st)
  case Nil
  show ?case by simp
next
  case (Cons n ns)
  show ?case
  proof (cases "map_of info n = None")
    case True
    with Cons show ?thesis by simp
  next
    case False
    with Cons show ?thesis by (cases "visit info dis n st") auto
  qed
qed

section \<open>The two sets, the dictionary and the activation loop\<close>

lemma read_config_sets:
  "read_config config (E, D) =
     (E \<union> {n. (n, True) \<in> set config}, D \<union> {n. (n, False) \<in> set config})"
proof (induction config arbitrary: E D)
  case Nil
  show ?case by simp
next
  case (Cons c config)
  obtain name enabled where c: "c = (name, enabled)" by (cases c)
  show ?case unfolding c by (cases enabled) (auto simp: Cons)
qed





lemma scan_directory_step:
  "scan_directory (e # es) info =
     (if well_formed e
      then scan_directory es (AList.update (entry_name e)
             \<lparr>dependencies = (case metadata_json e of Decoded (ListOf deps) \<Rightarrow> deps | _ \<Rightarrow> []),
              is_loaded = False\<rparr> info)
      else scan_directory es info)"
  by (auto simp: well_formed_def split: json_file.splits dependencies_field.splits)

lemma scan_directory_keys:
  "map_of (scan_directory es info) n = Some p \<Longrightarrow>
     map_of info n = Some p \<or>
     (\<not> is_loaded p \<and> (\<exists>e \<in> set es. entry_name e = n \<and> well_formed e))"
proof (induction es arbitrary: info)
  case Nil
  then show ?case by simp
next
  case (Cons e es)
  show ?case
  proof (cases "well_formed e")
    case False
    with Cons.prems have "map_of (scan_directory es info) n = Some p"
      by (simp only: scan_directory_step if_False)
    from Cons.IH[OF this] show ?thesis by auto
  next
    case True
    let ?v = "\<lparr>dependencies = (case metadata_json e of Decoded (ListOf deps) \<Rightarrow> deps | _ \<Rightarrow> []),
              is_loaded = False\<rparr>"
    from True Cons.prems
    have "map_of (scan_directory es (AList.update (entry_name e) ?v info)) n = Some p"
      by (simp only: scan_directory_step if_True)
    from Cons.IH[OF this]
    have "map_of (AList.update (entry_name e) ?v info) n = Some p \<or>
       (\<not> is_loaded p \<and> (\<exists>e \<in> set es. entry_name e = n \<and> well_formed e))" .
    then show ?thesis
    proof
      assume "map_of (AList.update (entry_name e) ?v info) n = Some p"
      then have "(entry_name e = n \<and> p = ?v) \<or> map_of info n = Some p"
        by (auto simp: update_conv' split: if_splits)
      with True show ?thesis by auto
    next
      assume "\<not> is_loaded p \<and> (\<exists>e \<in> set es. entry_name e = n \<and> well_formed e)"
      then show ?thesis by auto
    qed
  qed
qed

lemma set_update_sub: "set (AList.update k v al) \<subseteq> insert (k, v) (set al)"
  by (induction al) auto

lemma scan_directory_not_loaded:
  "(n, p) \<in> set (scan_directory es info) \<Longrightarrow> (n, p) \<in> set info \<or> \<not> is_loaded p"
proof (induction es arbitrary: info)
  case Nil
  then show ?case by simp
next
  case (Cons e es)
  show ?case
  proof (cases "well_formed e")
    case False
    with Cons.prems have "(n, p) \<in> set (scan_directory es info)"
      by (simp only: scan_directory_step if_False)
    from Cons.IH[OF this] show ?thesis .
  next
    case True
    let ?v = "\<lparr>dependencies = (case metadata_json e of Decoded (ListOf deps) \<Rightarrow> deps | _ \<Rightarrow> []),
              is_loaded = False\<rparr>"
    from True Cons.prems
    have "(n, p) \<in> set (scan_directory es (AList.update (entry_name e) ?v info))"
      by (simp only: scan_directory_step if_True)
    from Cons.IH[OF this] set_update_sub[of "entry_name e" ?v info] show ?thesis by auto
  qed
qed

lemma scenario_cycle_edges:
  "(''A'', ''B'') \<in> dep_edges scenario_cycle" "(''B'', ''A'') \<in> dep_edges scenario_cycle"
  by (simp_all add: dep_edges_def deps_of_def scenario_cycle_def)

lemma scan_scenario_directory: "scan_directory scenario_directory [] = scenario_pair"
  by (simp add: scenario_directory_def scenario_pair_def)

section \<open>The properties of the specification\<close>

text \<open>
  Claim C1. Whenever resolution completes without error, the loading order contains
  each plugin name at most once, consists exactly of the names in the transitive
  dependency closure of the enabled set within the catalog, and every declared
  dependency of the plugin at position \<open>i\<close> stands at a position strictly below \<open>i\<close>.
  The closure is given both ways: the names reachable from the enabled names that have
  a catalog entry, and the names with a catalog entry reachable from the enabled names.
\<close>

theorem loading_order_topological:
  assumes "resolve info disabled_plugins enabled_list = Inr order"
  shows "distinct order \<and>
     set order = (dep_edges info)\<^sup>* `` (set enabled_list \<inter> dom (map_of info)) \<and>
     set order = (dep_edges info)\<^sup>* `` set enabled_list \<inter> dom (map_of info) \<and>
     (\<forall>i < length order. \<forall>d \<in> set (deps_of info (order ! i)). \<exists>j < i. order ! j = d)"
proof -
  from resolve_Inr[OF assms] obtain st where inv: "dfs_inv info disabled_plugins st"
    and o: "loading_order st = order"
    and v: "visited st = (dep_edges info)\<^sup>* `` (set enabled_list \<inter> dom (map_of info))" by blast
  from inv o have d: "distinct order" and vo: "visited st = set order"
    and db: "deps_before info order"
    and cat: "\<forall>v \<in> visited st. map_of info v \<noteq> None" unfolding dfs_inv_def by blast+
  have "(dep_edges info)\<^sup>* `` set enabled_list \<inter> dom (map_of info)
      = (dep_edges info)\<^sup>* `` (set enabled_list \<inter> dom (map_of info))" (is "?L = ?R")
  proof
    show "?L \<subseteq> ?R" using reach_in_catalog[of _ info "set enabled_list"] by blast
    show "?R \<subseteq> ?L" using cat v by blast
  qed
  with d vo v db show ?thesis unfolding deps_before_def by simp
qed

theorem loading_order_topological_witness:
  "resolve scenario_chain {} [''B''] = Inr [''A'', ''B''] \<and>
   distinct [''A'', ''B''] \<and>
   set [''A'', ''B''] = (dep_edges scenario_chain)\<^sup>* `` set [''B''] \<inter> dom (map_of scenario_chain)"
proof -
  have r: "resolve scenario_chain {} [''B''] = Inr [''A'', ''B'']"
    by (simp add: resolve_def visit.simps scenario_chain_def)
  from loading_order_topological[OF r] r show ?thesis by blast
qed

text \<open>
  Claim C2. The returned set is said to hold exactly the plugins whose activation
  succeeded. Line 253 builds it from the whole \<^verbatim>\<open>loading_order\<close>: below, the import of
  \<open>A\<close> raises, \<^verbatim>\<open>is_loaded\<close> of \<open>A\<close> stays \<open>False\<close>, and \<open>A\<close> is a member of the returned set.
\<close>

theorem failed_import_is_returned:
  "load_plugins (\<lambda>enabled_plugins. [''B'']) import_of_A_fails (Some scenario_directory)
      (Decoded [(''B'', True)]) [] () =
     Some (Some {''A'', ''B''},
       \<lparr>plugins = [(''A'', \<lparr>dependencies = [], is_loaded = False\<rparr>),
                   (''B'', \<lparr>dependencies = [''A''], is_loaded = True\<rparr>)],
        attempts = [(''A'', ImportRaised), (''B'', Initialised)], world = ()\<rparr>)"
  by (simp add: load_plugins_def scan_scenario_directory policy_def apply_env_def
      resolve_and_activate_def resolve_def visit.simps scenario_pair_def import_of_A_fails_def)

text \<open>
  Claim C3, as amended. When a dependency cycle is reachable from an enabled plugin
  that has a catalog entry, resolution fails with an error that is justified by the
  graph, the loader returns \<^verbatim>\<open>None\<close> and no plugin is activated. The error is
  \<open>CircularDependency\<close>, naming a plugin that lies on a cycle, whenever every name
  reachable from the enabled plugins has a catalog entry and is not disabled.
\<close>

theorem cycle_fails:
  assumes "s \<in> set enabled_list" and "map_of info s \<noteq> None"
    and "(s, x) \<in> (dep_edges info)\<^sup>*" and "(x, x) \<in> (dep_edges info)\<^sup>+"
  shows "\<exists>e. resolve info disabled_plugins enabled_list = Inl e \<and>
     justified info disabled_plugins {} (set enabled_list \<inter> dom (map_of info)) e \<and>
     ((\<forall>y \<in> (dep_edges info)\<^sup>* `` (set enabled_list \<inter> dom (map_of info)).
          map_of info y \<noteq> None \<and> y \<notin> disabled_plugins)
        \<longrightarrow> (\<exists>y. e = CircularDependency y \<and> (y, y) \<in> (dep_edges info)\<^sup>+)) \<and>
     resolve_and_activate act info disabled_plugins enabled_list w =
       Some (None, \<lparr>plugins = info, attempts = [], world = w\<rparr>)"
proof -
  let ?R = "(dep_edges info)\<^sup>* `` (set enabled_list \<inter> dom (map_of info))"
  from resolve_fails[OF assms(1,2,3)] assms(4) obtain e where
    e: "resolve info disabled_plugins enabled_list = Inl e"
    and j: "justified info disabled_plugins {} (set enabled_list \<inter> dom (map_of info)) e" by blast
  have k: "\<exists>y. e = CircularDependency y \<and> (y, y) \<in> (dep_edges info)\<^sup>+"
    if ok: "\<forall>y \<in> ?R. map_of info y \<noteq> None \<and> y \<notin> disabled_plugins"
    using justified_kind[OF j] ok by blast
  show ?thesis
  proof (intro exI[of _ e] conjI impI)
    show "resolve info disabled_plugins enabled_list = Inl e" by (fact e)
    show "justified info disabled_plugins {} (set enabled_list \<inter> dom (map_of info)) e" by (fact j)
    show "\<exists>y. e = CircularDependency y \<and> (y, y) \<in> (dep_edges info)\<^sup>+"
      if "\<forall>y \<in> ?R. map_of info y \<noteq> None \<and> y \<notin> disabled_plugins" using that by (rule k)
    show "resolve_and_activate act info disabled_plugins enabled_list w =
       Some (None, \<lparr>plugins = info, attempts = [], world = w\<rparr>)"
      by (rule resolve_and_activate_Inl[OF e])
  qed
qed

theorem cycle_fails_witness:
  "''A'' \<in> set [''A''] \<and> map_of scenario_cycle ''A'' \<noteq> None \<and>
   (''A'', ''A'') \<in> (dep_edges scenario_cycle)\<^sup>* \<and>
   (''A'', ''A'') \<in> (dep_edges scenario_cycle)\<^sup>+ \<and>
   resolve scenario_cycle {} [''A''] = Inl (CircularDependency ''A'') \<and>
   resolve_and_activate every_import_succeeds scenario_cycle {} [''A''] () =
     Some (None, \<lparr>plugins = scenario_cycle, attempts = [], world = ()\<rparr>)"
proof -
  have h1: "''A'' \<in> set [''A'']" by simp
  have h2: "map_of scenario_cycle ''A'' \<noteq> None" by (simp add: scenario_cycle_def)
  have h3: "(''A'', ''A'') \<in> (dep_edges scenario_cycle)\<^sup>*" by simp
  have h4: "(''A'', ''A'') \<in> (dep_edges scenario_cycle)\<^sup>+"
    using scenario_cycle_edges by (rule trancl_into_trancl[OF r_into_trancl])
  have r: "resolve scenario_cycle {} [''A''] = Inl (CircularDependency ''A'')"
    by (simp add: resolve_def visit.simps scenario_cycle_def)
  from cycle_fails[OF h1 h2 h3 h4, of "{}" every_import_succeeds "()"]
  have "resolve_and_activate every_import_succeeds scenario_cycle {} [''A''] () =
     Some (None, \<lparr>plugins = scenario_cycle, attempts = [], world = ()\<rparr>)" by blast
  with h1 h2 h3 h4 r show ?thesis by blast
qed

text \<open>
  As stated, with \<open>CircularDependency\<close> as the error in every case, C3 fails: a plugin
  that lists an unknown name before its own name gives \<open>UnknownPlugin\<close>, and a cycle of
  two with one member disabled gives \<open>RequiredButDisabled\<close>.
\<close>

theorem cycle_error_counterexample:
  "(''A'', ''A'') \<in> dep_edges scenario_self \<and>
   resolve scenario_self {} [''A''] = Inl (UnknownPlugin ''X'') \<and>
   (''B'', ''B'') \<in> (dep_edges scenario_cycle)\<^sup>+ \<and>
   resolve scenario_cycle {''B''} [''A''] = Inl (RequiredButDisabled ''B'')"
proof -
  have "(''B'', ''B'') \<in> (dep_edges scenario_cycle)\<^sup>+"
    using scenario_cycle_edges(2,1) by (rule trancl_into_trancl[OF r_into_trancl])
  moreover have "(''A'', ''A'') \<in> dep_edges scenario_self"
    by (simp add: dep_edges_def deps_of_def scenario_self_def)
  moreover have "resolve scenario_self {} [''A''] = Inl (UnknownPlugin ''X'')"
    by (simp add: resolve_def visit.simps scenario_self_def)
  moreover have "resolve scenario_cycle {''B''} [''A''] = Inl (RequiredButDisabled ''B'')"
    by (simp add: resolve_def visit.simps scenario_cycle_def)
  ultimately show ?thesis by blast
qed

text \<open>
  Claim C4, as amended. When a name without a catalog entry is reachable, through
  dependency edges, from an enabled plugin that has a catalog entry, resolution fails
  with an error that is justified by the graph, the loader returns \<^verbatim>\<open>None\<close> and no
  plugin is activated. The error is \<open>UnknownPlugin\<close> for a name without an entry
  whenever no reachable name is disabled or lies on a cycle. An enabled name that has
  no catalog entry itself is passed over: resolution gives what it gives without it.
\<close>

theorem unknown_dependency_fails:
  assumes "s \<in> set enabled_list" and "map_of info s \<noteq> None"
    and "(s, x) \<in> (dep_edges info)\<^sup>*" and "map_of info x = None"
  shows "(\<exists>e. resolve info disabled_plugins enabled_list = Inl e \<and>
     justified info disabled_plugins {} (set enabled_list \<inter> dom (map_of info)) e \<and>
     ((\<forall>y \<in> (dep_edges info)\<^sup>* `` (set enabled_list \<inter> dom (map_of info)).
          y \<notin> disabled_plugins \<and> (y, y) \<notin> (dep_edges info)\<^sup>+)
        \<longrightarrow> (\<exists>y. e = UnknownPlugin y \<and> map_of info y = None))) \<and>
     resolve_and_activate act info disabled_plugins enabled_list w =
       Some (None, \<lparr>plugins = info, attempts = [], world = w\<rparr>) \<and>
     resolve info disabled_plugins (filter (\<lambda>n. map_of info n \<noteq> None) enabled_list) =
       resolve info disabled_plugins enabled_list"
proof -
  let ?R = "(dep_edges info)\<^sup>* `` (set enabled_list \<inter> dom (map_of info))"
  from resolve_fails[OF assms(1,2,3)] assms(4) obtain e where
    e: "resolve info disabled_plugins enabled_list = Inl e"
    and j: "justified info disabled_plugins {} (set enabled_list \<inter> dom (map_of info)) e" by blast
  have k: "\<exists>y. e = UnknownPlugin y \<and> map_of info y = None"
    if ok: "\<forall>y \<in> ?R. y \<notin> disabled_plugins \<and> (y, y) \<notin> (dep_edges info)\<^sup>+"
    using justified_kind[OF j] ok by blast
  have "\<exists>e. resolve info disabled_plugins enabled_list = Inl e \<and>
     justified info disabled_plugins {} (set enabled_list \<inter> dom (map_of info)) e \<and>
     ((\<forall>y \<in> ?R. y \<notin> disabled_plugins \<and> (y, y) \<notin> (dep_edges info)\<^sup>+)
        \<longrightarrow> (\<exists>y. e = UnknownPlugin y \<and> map_of info y = None))"
  proof (intro exI[of _ e] conjI impI)
    show "resolve info disabled_plugins enabled_list = Inl e" by (fact e)
    show "justified info disabled_plugins {} (set enabled_list \<inter> dom (map_of info)) e" by (fact j)
    show "\<exists>y. e = UnknownPlugin y \<and> map_of info y = None"
      if "\<forall>y \<in> ?R. y \<notin> disabled_plugins \<and> (y, y) \<notin> (dep_edges info)\<^sup>+" using that by (rule k)
  qed
  moreover have "resolve_and_activate act info disabled_plugins enabled_list w =
       Some (None, \<lparr>plugins = info, attempts = [], world = w\<rparr>)"
    by (rule resolve_and_activate_Inl[OF e])
  moreover have "resolve info disabled_plugins (filter (\<lambda>n. map_of info n \<noteq> None) enabled_list) =
       resolve info disabled_plugins enabled_list"
    by (simp only: resolve_def visit_enabled_filter)
  ultimately show ?thesis by (intro conjI)
qed

theorem unknown_dependency_fails_witness:
  "''C'' \<in> set [''C''] \<and> map_of scenario_chain ''C'' \<noteq> None \<and>
   (''C'', ''X'') \<in> (dep_edges scenario_chain)\<^sup>* \<and> map_of scenario_chain ''X'' = None \<and>
   resolve scenario_chain {} [''C''] = Inl (UnknownPlugin ''X'') \<and>
   resolve_and_activate every_import_succeeds scenario_chain {} [''C''] () =
     Some (None, \<lparr>plugins = scenario_chain, attempts = [], world = ()\<rparr>)"
proof -
  have h1: "''C'' \<in> set [''C'']" by simp
  have h2: "map_of scenario_chain ''C'' \<noteq> None" by (simp add: scenario_chain_def)
  have "(''C'', ''X'') \<in> dep_edges scenario_chain"
    by (simp add: dep_edges_def deps_of_def scenario_chain_def)
  then have h3: "(''C'', ''X'') \<in> (dep_edges scenario_chain)\<^sup>*" by (rule r_into_rtrancl)
  have h4: "map_of scenario_chain ''X'' = None" by (simp add: scenario_chain_def)
  have r: "resolve scenario_chain {} [''C''] = Inl (UnknownPlugin ''X'')"
    by (simp add: resolve_def visit.simps scenario_chain_def)
  from unknown_dependency_fails[OF h1 h2 h3 h4, of "{}" every_import_succeeds "()"]
  have "resolve_and_activate every_import_succeeds scenario_chain {} [''C''] () =
     Some (None, \<lparr>plugins = scenario_chain, attempts = [], world = ()\<rparr>)" by blast
  with h1 h2 h3 h4 r show ?thesis by blast
qed

text \<open>
  As stated, for a directly requested name too, C4 fails: the enabled name \<open>X\<close> has no
  catalog entry, and resolution continues without it and succeeds.
\<close>

theorem enabled_unknown_counterexample:
  "map_of scenario_pair ''X'' = None \<and>
   resolve scenario_pair {} [''X'', ''B''] = Inr [''A'', ''B''] \<and>
   resolve_and_activate every_import_succeeds scenario_pair {} [''X'', ''B''] () =
     Some (Some {''A'', ''B''},
       \<lparr>plugins = [(''A'', \<lparr>dependencies = [], is_loaded = True\<rparr>),
                   (''B'', \<lparr>dependencies = [''A''], is_loaded = True\<rparr>)],
        attempts = [(''A'', Initialised), (''B'', Initialised)], world = ()\<rparr>)"
  by (simp add: resolve_and_activate_def resolve_def visit.simps scenario_pair_def
      every_import_succeeds_def)

text \<open>
  Claim C5, as amended. When a disabled name is reachable from an enabled plugin that
  has a catalog entry (or is such a plugin), resolution fails with an error that is
  justified by the graph, the loader returns \<^verbatim>\<open>None\<close> and no plugin is activated. The
  error is \<open>RequiredButDisabled\<close> for a disabled name whenever every reachable name has
  a catalog entry and none lies on a cycle.
\<close>

theorem disabled_dependency_fails:
  assumes "s \<in> set enabled_list" and "map_of info s \<noteq> None"
    and "(s, x) \<in> (dep_edges info)\<^sup>*" and "x \<in> disabled_plugins"
  shows "\<exists>e. resolve info disabled_plugins enabled_list = Inl e \<and>
     justified info disabled_plugins {} (set enabled_list \<inter> dom (map_of info)) e \<and>
     ((\<forall>y \<in> (dep_edges info)\<^sup>* `` (set enabled_list \<inter> dom (map_of info)).
          map_of info y \<noteq> None \<and> (y, y) \<notin> (dep_edges info)\<^sup>+)
        \<longrightarrow> (\<exists>y. e = RequiredButDisabled y \<and> y \<in> disabled_plugins)) \<and>
     resolve_and_activate act info disabled_plugins enabled_list w =
       Some (None, \<lparr>plugins = info, attempts = [], world = w\<rparr>)"
proof -
  let ?R = "(dep_edges info)\<^sup>* `` (set enabled_list \<inter> dom (map_of info))"
  from resolve_fails[OF assms(1,2,3)] assms(4) obtain e where
    e: "resolve info disabled_plugins enabled_list = Inl e"
    and j: "justified info disabled_plugins {} (set enabled_list \<inter> dom (map_of info)) e" by blast
  have k: "\<exists>y. e = RequiredButDisabled y \<and> y \<in> disabled_plugins"
    if ok: "\<forall>y \<in> ?R. map_of info y \<noteq> None \<and> (y, y) \<notin> (dep_edges info)\<^sup>+"
    using justified_kind[OF j] ok by blast
  show ?thesis
  proof (intro exI[of _ e] conjI impI)
    show "resolve info disabled_plugins enabled_list = Inl e" by (fact e)
    show "justified info disabled_plugins {} (set enabled_list \<inter> dom (map_of info)) e" by (fact j)
    show "\<exists>y. e = RequiredButDisabled y \<and> y \<in> disabled_plugins"
      if "\<forall>y \<in> ?R. map_of info y \<noteq> None \<and> (y, y) \<notin> (dep_edges info)\<^sup>+" using that by (rule k)
    show "resolve_and_activate act info disabled_plugins enabled_list w =
       Some (None, \<lparr>plugins = info, attempts = [], world = w\<rparr>)"
      by (rule resolve_and_activate_Inl[OF e])
  qed
qed

theorem disabled_dependency_fails_witness:
  "''B'' \<in> set [''B''] \<and> map_of scenario_pair ''B'' \<noteq> None \<and>
   (''B'', ''A'') \<in> (dep_edges scenario_pair)\<^sup>* \<and> ''A'' \<in> {''A''} \<and>
   resolve scenario_pair {''A''} [''B''] = Inl (RequiredButDisabled ''A'') \<and>
   resolve_and_activate every_import_succeeds scenario_pair {''A''} [''B''] () =
     Some (None, \<lparr>plugins = scenario_pair, attempts = [], world = ()\<rparr>)"
proof -
  have h1: "''B'' \<in> set [''B'']" by simp
  have h2: "map_of scenario_pair ''B'' \<noteq> None" by (simp add: scenario_pair_def)
  have "(''B'', ''A'') \<in> dep_edges scenario_pair"
    by (simp add: dep_edges_def deps_of_def scenario_pair_def)
  then have h3: "(''B'', ''A'') \<in> (dep_edges scenario_pair)\<^sup>*" by (rule r_into_rtrancl)
  have h4: "''A'' \<in> {''A''}" by simp
  have r: "resolve scenario_pair {''A''} [''B''] = Inl (RequiredButDisabled ''A'')"
    by (simp add: resolve_def visit.simps scenario_pair_def)
  from disabled_dependency_fails[OF h1 h2 h3 h4, of every_import_succeeds "()"]
  have "resolve_and_activate every_import_succeeds scenario_pair {''A''} [''B''] () =
     Some (None, \<lparr>plugins = scenario_pair, attempts = [], world = ()\<rparr>)" by blast
  with h1 h2 h3 h4 r show ?thesis by blast
qed

text \<open>
  As stated, with \<open>RequiredButDisabled\<close> as the error in every case, C5 fails: a
  disabled dependency without a catalog entry gives \<open>UnknownPlugin\<close>, the lookup of
  line 194 coming before the test of line 201; and a name that is both enabled and
  disabled and has no catalog entry is passed over.
\<close>

theorem disabled_error_counterexample:
  "(''B'', ''A'') \<in> dep_edges scenario_orphan \<and> ''A'' \<in> {''A''} \<and>
   resolve scenario_orphan {''A''} [''B''] = Inl (UnknownPlugin ''A'') \<and>
   resolve [] {''X''} [''X''] = Inr []"
  by (simp add: resolve_def visit.simps scenario_orphan_def dep_edges_def deps_of_def)

text \<open>
  Claim C6. Whenever resolution fails, for whatever reason, the loader returns \<^verbatim>\<open>None\<close>
  to its caller, no plugin has been handed to the import machinery, the world is as
  it was, and no entry of the dictionary is marked loaded.
\<close>

theorem resolution_all_or_nothing:
  assumes "resolve (scan_directory listing []) (snd (policy config env_plugin_list))
             (list_of (fst (policy config env_plugin_list))) = Inl e"
  shows "\<exists>r. load_plugins list_of act (Some listing) (Decoded config) env_plugin_list w = Some (None, r) \<and>
     attempts r = [] \<and> world r = w \<and> (\<forall>(n, p) \<in> set (plugins r). \<not> is_loaded p)"
proof -
  have "\<not> is_loaded p" if "(n, p) \<in> set (scan_directory listing [])" for n p
    using scan_directory_not_loaded[OF that] by simp
  then show ?thesis using assms
    by (auto simp: load_plugins_def resolve_and_activate_def)
qed

theorem resolution_all_or_nothing_witness:
  "resolve (scan_directory scenario_directory []) (snd (policy [(''B'', True), (''A'', False)] []))
      ((\<lambda>enabled_plugins. [''B'']) (fst (policy [(''B'', True), (''A'', False)] [])))
     = Inl (RequiredButDisabled ''A'') \<and>
   load_plugins (\<lambda>enabled_plugins. [''B'']) import_of_A_fails (Some scenario_directory)
      (Decoded [(''B'', True), (''A'', False)]) [] () =
     Some (None, \<lparr>plugins = scenario_pair, attempts = [], world = ()\<rparr>)"
proof -
  have h: "resolve (scan_directory scenario_directory []) (snd (policy [(''B'', True), (''A'', False)] []))
      ((\<lambda>enabled_plugins. [''B'']) (fst (policy [(''B'', True), (''A'', False)] [])))
     = Inl (RequiredButDisabled ''A'')"
    by (simp add: scan_scenario_directory policy_def apply_env_def resolve_def visit.simps
        scenario_pair_def)
  from resolution_all_or_nothing[OF h, of import_of_A_fails "()"] obtain r where
    r: "load_plugins (\<lambda>enabled_plugins. [''B'']) import_of_A_fails (Some scenario_directory)
          (Decoded [(''B'', True), (''A'', False)]) [] () = Some (None, r)"
    and a: "attempts r = []" by blast
  have "load_plugins (\<lambda>enabled_plugins. [''B'']) import_of_A_fails (Some scenario_directory)
      (Decoded [(''B'', True), (''A'', False)]) [] () =
     Some (None, \<lparr>plugins = scenario_pair, attempts = [], world = ()\<rparr>)"
    using h by (simp add: load_plugins_def resolve_and_activate_def scan_scenario_directory)
  with h show ?thesis by blast
qed

text \<open>
  Claim C7. Every name of the override list is in the final enabled set and not in the
  final disabled set, whatever the base configuration says about it.
\<close>

theorem override_wins:
  "\<forall>n \<in> set env_plugin_list.
     n \<in> fst (policy config env_plugin_list) \<and> n \<notin> snd (policy config env_plugin_list)"
  by (simp add: policy_def apply_env_def)

theorem override_wins_witness:
  "''A'' \<in> set [''A''] \<and> ''A'' \<in> fst (policy [(''A'', False)] [''A'']) \<and>
   ''A'' \<notin> snd (policy [(''A'', False)] [''A'']) \<and>
   read_config [(''A'', False)] ({}, {}) = ({}, {''A''})"
proof -
  have h: "''A'' \<in> set [''A'']" by simp
  from override_wins[of "[''A'']" "[(''A'', False)]"] h
  have "''A'' \<in> fst (policy [(''A'', False)] [''A'']) \<and> ''A'' \<notin> snd (policy [(''A'', False)] [''A''])"
    by blast
  with h show ?thesis by simp
qed

text \<open>
  Claim C8, as amended. A name is in the enabled set exactly when some configuration
  entry mentions it as enabled or the override list holds it, and in the disabled set
  exactly when some entry mentions it as disabled and the override list does not hold
  it. A name that the base configuration mentions both ways is therefore in both sets,
  in whatever order its entries come.
\<close>

theorem config_classification:
  "policy config env_plugin_list =
     ({n. (n, True) \<in> set config} \<union> set env_plugin_list,
      {n. (n, False) \<in> set config} - set env_plugin_list)"
  by (simp add: policy_def apply_env_def read_config_sets)

text \<open>
  As stated, with the later entry winning, C8 fails: the name \<open>A\<close> ends up in both
  sets, whichever of its two entries is read last.
\<close>

theorem both_sets_counterexample:
  "policy [(''A'', True), (''A'', False)] [] = ({''A''}, {''A''}) \<and>
   policy [(''A'', False), (''A'', True)] [] = ({''A''}, {''A''})"
  by (simp add: policy_def apply_env_def)




text \<open>
  Claim C10. Every name of the returned set has an entry in the dictionary built from
  the plugin directory, and so comes from a directory entry that is a directory, has
  \<^verbatim>\<open>plugin.py\<close> and has a \<^verbatim>\<open>metadata.json\<close> that decodes and whose dependencies, when
  given, are a list.
\<close>

theorem returned_names_have_descriptors:
  assumes "load_plugins list_of act plugin_directory config_file env_plugin_list w = Some (Some S, r)"
  shows "\<exists>listing. plugin_directory = Some listing \<and>
     (\<forall>n \<in> S. map_of (scan_directory listing []) n \<noteq> None \<and>
        (\<exists>e \<in> set listing. entry_name e = n \<and> is_dir e \<and> has_plugin_py e \<and>
           (metadata_json e = Decoded NoKey \<or> (\<exists>deps. metadata_json e = Decoded (ListOf deps)))))"
proof -
  from assms obtain listing config where pd: "plugin_directory = Some listing"
    and cf: "config_file = Decoded config"
    and ra: "resolve_and_activate act (scan_directory listing [])
        (snd (policy config env_plugin_list)) (list_of (fst (policy config env_plugin_list))) w
      = Some (Some S, r)"
    by (auto simp: load_plugins_def split: option.splits json_file.splits)
  from ra obtain order where o: "resolve (scan_directory listing [])
        (snd (policy config env_plugin_list)) (list_of (fst (policy config env_plugin_list))) = Inr order"
    and S: "S = set order"
    by (auto simp: resolve_and_activate_def split: sum.splits option.splits)
  have "map_of (scan_directory listing []) n \<noteq> None \<and>
        (\<exists>e \<in> set listing. entry_name e = n \<and> is_dir e \<and> has_plugin_py e \<and>
           (metadata_json e = Decoded NoKey \<or> (\<exists>deps. metadata_json e = Decoded (ListOf deps))))"
    if n: "n \<in> S" for n
  proof -
    from loading_order_sub[OF o] n S obtain p where p: "map_of (scan_directory listing []) n = Some p"
      by auto
    from scan_directory_keys[OF p] obtain e where e: "e \<in> set listing" "entry_name e = n" "well_formed e"
      by auto
    from e(3) have "is_dir e \<and> has_plugin_py e \<and>
           (metadata_json e = Decoded NoKey \<or> (\<exists>deps. metadata_json e = Decoded (ListOf deps)))"
      by (auto simp: well_formed_def split: json_file.splits dependencies_field.splits)
    with p e(1,2) show ?thesis by auto
  qed
  with pd show ?thesis by blast
qed

theorem returned_names_have_descriptors_witness:
  "load_plugins (\<lambda>enabled_plugins. [''B'']) import_of_A_fails (Some scenario_directory)
      (Decoded [(''B'', True), (''M'', False)]) [] () =
     Some (Some {''A'', ''B''},
       \<lparr>plugins = [(''A'', \<lparr>dependencies = [], is_loaded = False\<rparr>),
                   (''B'', \<lparr>dependencies = [''A''], is_loaded = True\<rparr>)],
        attempts = [(''A'', ImportRaised), (''B'', Initialised)], world = ()\<rparr>) \<and>
   map_of (scan_directory scenario_directory []) ''A'' \<noteq> None \<and>
   map_of (scan_directory scenario_directory []) ''B'' \<noteq> None \<and>
   map_of (scan_directory scenario_directory []) ''M'' = None \<and>
   map_of (scan_directory scenario_directory []) ''N'' = None"
proof -
  have h: "load_plugins (\<lambda>enabled_plugins. [''B'']) import_of_A_fails (Some scenario_directory)
      (Decoded [(''B'', True), (''M'', False)]) [] () =
     Some (Some {''A'', ''B''},
       \<lparr>plugins = [(''A'', \<lparr>dependencies = [], is_loaded = False\<rparr>),
                   (''B'', \<lparr>dependencies = [''A''], is_loaded = True\<rparr>)],
        attempts = [(''A'', ImportRaised), (''B'', Initialised)], world = ()\<rparr>)"
    by (simp add: load_plugins_def scan_scenario_directory policy_def apply_env_def
        resolve_and_activate_def resolve_def visit.simps scenario_pair_def import_of_A_fails_def)
  from returned_names_have_descriptors[OF h]
  have "map_of (scan_directory scenario_directory []) ''A'' \<noteq> None"
    and "map_of (scan_directory scenario_directory []) ''B'' \<noteq> None" by auto
  moreover have "map_of (scan_directory scenario_directory []) ''M'' = None"
    and "map_of (scan_directory scenario_directory []) ''N'' = None"
    by (simp_all add: scan_scenario_directory scenario_pair_def)
  ultimately show ?thesis using h by blast
qed

end
